theory Spec2Isabelle
  imports Complex_Main "HOL-Library.Sublist" "HOL-Library.Multiset"
begin

section \<open>Data model\<close>

text \<open>
  The plugin works on the host's scene graph: objects with an identity, a position, a
  size, a lock flag, a parent link and an ordered child list. The objects are shared and
  mutated in place (a sibling met in \<^verbatim>\<open>parent.children\<close> is the same object as the
  one in the selection), so the scene is an explicit store from identities to nodes and
  every function takes the store and returns the updated one.

  JavaScript numbers are modelled as exact rationals: rounding, NaN and the infinities
  of IEEE doubles are outside the model.
\<close>

type_synonym ident = nat

record node =
  xpos :: rat
  ypos :: rat
  width :: rat
  height :: rat
  locked :: bool
  parent :: "ident option"
  children :: "ident list"
  ntype :: string
  layoutMode :: "string option"
  hasInsertChild :: bool
  hasResize :: bool
  hasResizeWithoutConstraints :: bool

type_synonym scene = "ident \<Rightarrow> node"

text \<open>The rectangles of the check queue: \<^verbatim>\<open>{x, y, width, height}\<close>.\<close>

record rect =
  rx :: rat
  ry :: rat
  rwidth :: rat
  rheight :: rat

section \<open>Gap policy\<close>

text \<open>
  \<^verbatim>\<open>getDetectedGap(nodes)\<close>: \<^verbatim>\<open>!nodes\<close> holds for null and undefined, which is
  \<open>None\<close> here.
\<close>

definition getDetectedGap :: "node list option \<Rightarrow> rat" where
  "getDetectedGap nodes =
     (case nodes of
        None \<Rightarrow> 40
      | Some [] \<Rightarrow> 40
      | Some (n # _) \<Rightarrow> (if width n > 400 then 100 else 40))"

section \<open>Directions\<close>

text \<open>
  A direction is the command string (\<^verbatim>\<open>'right'\<close>, \<^verbatim>\<open>'top-left'\<close>, ...). The code
  only ever asks \<^verbatim>\<open>direction.includes(token)\<close>, a substring test.
\<close>

fun includes_str :: "string \<Rightarrow> string \<Rightarrow> bool" where
  "includes_str [] t = (t = [])"
| "includes_str (c # cs) t = (prefix t (c # cs) \<or> includes_str cs t)"

text \<open>
  The signed offsets that the code writes out in four places (target rectangle, future
  rectangle, final move, clone placement): left wins over right, top over bottom.
\<close>

definition offsetX :: "string \<Rightarrow> rat \<Rightarrow> rat" where
  "offsetX direction shiftX =
     (if includes_str direction ''left'' then - shiftX
      else if includes_str direction ''right'' then shiftX else 0)"

definition offsetY :: "string \<Rightarrow> rat \<Rightarrow> rat" where
  "offsetY direction shiftY =
     (if includes_str direction ''top'' then - shiftY
      else if includes_str direction ''bottom'' then shiftY else 0)"

section \<open>Collision propagation (the breadth-first \<^verbatim>\<open>pushSiblings\<close>)\<close>

definition margin :: rat where
  "margin = 1 / 2"

definition overlaps :: "node \<Rightarrow> rect \<Rightarrow> bool" where
  "overlaps sibling r \<longleftrightarrow>
     xpos sibling < rx r + rwidth r - margin \<and>
     xpos sibling + width sibling > rx r + margin \<and>
     ypos sibling < ry r + rheight r - margin \<and>
     ypos sibling + height sibling > ry r + margin"

text \<open>
  The rectangle a node will occupy once shifted: the starting target rectangle when the
  node is the original, the "future position" pushed on the queue when it is a sibling.
\<close>

definition futureRect :: "string \<Rightarrow> rat \<Rightarrow> rat \<Rightarrow> node \<Rightarrow> rect" where
  "futureRect direction shiftX shiftY n =
     \<lparr>rx = xpos n + offsetX direction shiftX,
      ry = ypos n + offsetY direction shiftY,
      rwidth = width n,
      rheight = height n\<rparr>"

text \<open>
  The inner \<^verbatim>\<open>for (const sibling of parent.children)\<close> for one rectangle taken off
  the queue. The loop state is \<open>(nodesToMove, processed, checkQueue)\<close>; nothing is
  moved yet, so the scene is only read.
\<close>

fun scanSiblings ::
  "scene \<Rightarrow> string \<Rightarrow> rat \<Rightarrow> rat \<Rightarrow> rect \<Rightarrow> ident list \<Rightarrow>
   ident list \<times> ident set \<times> rect list \<Rightarrow> ident list \<times> ident set \<times> rect list" where
  "scanSiblings s direction shiftX shiftY r [] st = st"
| "scanSiblings s direction shiftX shiftY r (sibling # rest) (nodesToMove, processed, checkQueue) =
     (if sibling \<in> processed then
        scanSiblings s direction shiftX shiftY r rest (nodesToMove, processed, checkQueue)
      else if overlaps (s sibling) r then
        scanSiblings s direction shiftX shiftY r rest
          (nodesToMove @ [sibling], insert sibling processed,
           checkQueue @ [futureRect direction shiftX shiftY (s sibling)])
      else
        scanSiblings s direction shiftX shiftY r rest (nodesToMove, processed, checkQueue))"

text \<open>
  One scan takes a child off the unprocessed ones for every rectangle it enqueues: the
  count that makes the outer loop terminate.
\<close>

lemma scanSiblings_measure:
  assumes "scanSiblings s d sx sy r cs (mv, pr, q) = (mv', pr', q')"
    and "finite A" and "set cs \<subseteq> A"
  shows "card (A - pr') + length q' = card (A - pr) + length q"
  using assms
proof (induction cs arbitrary: mv pr q)
  case Nil
  then show ?case by simp
next
  case (Cons c cs)
  show ?case
  proof (cases "c \<notin> pr \<and> overlaps (s c) r")
    case False
    with Cons.prems have "scanSiblings s d sx sy r cs (mv, pr, q) = (mv', pr', q')"
      by (auto split: if_splits)
    with Cons.IH Cons.prems show ?thesis by simp
  next
    case True
    with Cons.prems have
      "scanSiblings s d sx sy r cs (mv @ [c], insert c pr, q @ [futureRect d sx sy (s c)])
         = (mv', pr', q')"
      by simp
    with Cons.IH Cons.prems have
      "card (A - pr') + length q' = card (A - insert c pr) + length (q @ [futureRect d sx sy (s c)])"
      by simp
    moreover have "c \<in> A - pr" using True Cons.prems by simp
    then have "card (A - insert c pr) + 1 = card (A - pr)"
      using \<open>finite A\<close>
      by (metis Diff_insert Suc_eq_plus1 card_Suc_Diff1 finite_Diff)
    ultimately show ?thesis by simp
  qed
qed

text \<open>
  The \<^verbatim>\<open>while (checkQueue.length > 0)\<close> loop: \<^verbatim>\<open>checkQueue.shift()\<close> takes the
  head, the scan appends at the tail. It returns \<open>nodesToMove\<close>.
\<close>

function checkLoop ::
  "scene \<Rightarrow> string \<Rightarrow> rat \<Rightarrow> rat \<Rightarrow> ident list \<Rightarrow>
   ident list \<times> ident set \<times> rect list \<Rightarrow> ident list" where
  "checkLoop s direction shiftX shiftY siblings (nodesToMove, processed, []) = nodesToMove"
| "checkLoop s direction shiftX shiftY siblings (nodesToMove, processed, r # checkQueue) =
     checkLoop s direction shiftX shiftY siblings
       (scanSiblings s direction shiftX shiftY r siblings (nodesToMove, processed, checkQueue))"
  by pat_completeness auto
termination
proof (relation "measure (\<lambda>(s, d, sx, sy, cs, mv, pr, q). card (set cs - pr) + length q)")
  show "wf (measure (\<lambda>(s, d, sx, sy, cs, mv, pr, q). card (set cs - pr) + length q))"
    by simp
next
  fix s :: scene and direction shiftX shiftY siblings nodesToMove
    and processed :: "ident set" and r and checkQueue :: "rect list"
  obtain mv' pr' q' where
    scan: "scanSiblings s direction shiftX shiftY r siblings (nodesToMove, processed, checkQueue)
             = (mv', pr', q')"
    by (metis prod_cases3)
  have "card (set siblings - pr') + length q' = card (set siblings - processed) + length checkQueue"
    by (rule scanSiblings_measure [OF scan]) simp_all
  then show "((s, direction, shiftX, shiftY, siblings,
                scanSiblings s direction shiftX shiftY r siblings (nodesToMove, processed, checkQueue)),
               (s, direction, shiftX, shiftY, siblings, nodesToMove, processed, r # checkQueue))
             \<in> measure (\<lambda>(s, d, sx, sy, cs, mv, pr, q). card (set cs - pr) + length q)"
    by (simp add: scan)
qed

text \<open>
  The same loop with a bound on its iterations: \<open>None\<close> when the bound is used up
  before the queue is empty.
\<close>

fun checkLoopWithin ::
  "nat \<Rightarrow> scene \<Rightarrow> string \<Rightarrow> rat \<Rightarrow> rat \<Rightarrow> ident list \<Rightarrow>
   ident list \<times> ident set \<times> rect list \<Rightarrow> ident list option" where
  "checkLoopWithin n s direction shiftX shiftY siblings (nodesToMove, processed, []) =
     Some nodesToMove"
| "checkLoopWithin 0 s direction shiftX shiftY siblings (nodesToMove, processed, r # checkQueue) =
     None"
| "checkLoopWithin (Suc n) s direction shiftX shiftY siblings (nodesToMove, processed, r # checkQueue) =
     checkLoopWithin n s direction shiftX shiftY siblings
       (scanSiblings s direction shiftX shiftY r siblings (nodesToMove, processed, checkQueue))"

text \<open>The final loop: each collected node is moved by the signed offsets.\<close>

definition shiftNode :: "string \<Rightarrow> rat \<Rightarrow> rat \<Rightarrow> node \<Rightarrow> node" where
  "shiftNode direction shiftX shiftY n =
     n\<lparr>xpos := xpos n + offsetX direction shiftX,
       ypos := ypos n + offsetY direction shiftY\<rparr>"

definition moveNode :: "string \<Rightarrow> rat \<Rightarrow> rat \<Rightarrow> scene \<Rightarrow> ident \<Rightarrow> scene" where
  "moveNode direction shiftX shiftY s nd = s(nd := shiftNode direction shiftX shiftY (s nd))"

text \<open>The nodes a call collects, for an original whose parent is \<open>p\<close>.\<close>

definition nodesToMove :: "scene \<Rightarrow> ident \<Rightarrow> ident \<Rightarrow> string \<Rightarrow> rat \<Rightarrow> rat \<Rightarrow> ident set \<Rightarrow> ident list" where
  "nodesToMove s originalNode p direction shiftX shiftY excludedIds =
     checkLoop s direction shiftX shiftY (children (s p))
       ([], excludedIds, [futureRect direction shiftX shiftY (s originalNode)])"

definition pushSiblings :: "scene \<Rightarrow> ident \<Rightarrow> string \<Rightarrow> rat \<Rightarrow> rat \<Rightarrow> ident set \<Rightarrow> scene" where
  "pushSiblings s originalNode direction shiftX shiftY excludedIds =
     (case parent (s originalNode) of
        None \<Rightarrow> s
      | Some p \<Rightarrow>
          foldl (moveNode direction shiftX shiftY) s
            (nodesToMove s originalNode p direction shiftX shiftY excludedIds))"

text \<open>A scene with other lock flags, to compare runs that differ in nothing else.\<close>

definition withLocks :: "(ident \<Rightarrow> bool) \<Rightarrow> scene \<Rightarrow> scene" where
  "withLocks L s = (\<lambda>i. (s i)\<lparr>locked := L i\<rparr>)"

section \<open>The corridor variant of \<^verbatim>\<open>pushSiblings\<close>\<close>

text \<open>
  The source file holds the plugin twice. The copy modelled above (the second in the
  file) pushes breadth-first; in the first copy \<^verbatim>\<open>pushSiblings\<close> is a single pass
  over the siblings that moves the ones lying beyond the original inside its corridor
  and does not follow chains. It reads the original while it moves siblings, so the
  original is looked up in the current scene at every step.
\<close>

definition corridorStep ::
  "ident \<Rightarrow> string \<Rightarrow> rat \<Rightarrow> rat \<Rightarrow> ident set \<Rightarrow> scene \<Rightarrow> ident \<Rightarrow> scene" where
  "corridorStep originalNode direction shiftX shiftY excludedIds s sibling =
     (if sibling \<in> excludedIds then s
      else
        let orig = s originalNode;
            sib = s sibling;
            alignedVertically =
              (ypos sib < ypos orig + height orig - margin \<and>
               ypos sib + height sib > ypos orig + margin);
            alignedHorizontally =
              (xpos sib < xpos orig + width orig - margin \<and>
               xpos sib + width sib > xpos orig + margin);
            moveX =
              (if includes_str direction ''right'' \<and> alignedVertically then
                 (if xpos sib \<ge> xpos orig + width orig - margin then shiftX else 0)
               else if includes_str direction ''left'' \<and> alignedVertically then
                 (if xpos sib + width sib \<le> xpos orig + margin then - shiftX else 0)
               else 0);
            moveY =
              (if includes_str direction ''bottom'' \<and> alignedHorizontally then
                 (if ypos sib \<ge> ypos orig + height orig - margin then shiftY else 0)
               else if includes_str direction ''top'' \<and> alignedHorizontally then
                 (if ypos sib + height sib \<le> ypos orig + margin then - shiftY else 0)
               else 0)
        in if moveX \<noteq> 0 \<or> moveY \<noteq> 0
           then s(sibling := sib\<lparr>xpos := xpos sib + moveX, ypos := ypos sib + moveY\<rparr>)
           else s)"

definition pushSiblingsCorridor ::
  "scene \<Rightarrow> ident \<Rightarrow> string \<Rightarrow> rat \<Rightarrow> rat \<Rightarrow> ident set \<Rightarrow> scene" where
  "pushSiblingsCorridor s originalNode direction shiftX shiftY excludedIds =
     (case parent (s originalNode) of
        None \<Rightarrow> s
      | Some p \<Rightarrow>
          foldl (corridorStep originalNode direction shiftX shiftY excludedIds) s (children (s p)))"

section \<open>Container adaptation (\<^verbatim>\<open>expandSectionIfNeeded\<close>)\<close>

definition SECTION_PADDING :: rat where
  "SECTION_PADDING = 80"

text \<open>
  \<^verbatim>\<open>resizeParent\<close>: \<^verbatim>\<open>resize\<close> when the parent has it, else
  \<^verbatim>\<open>resizeWithoutConstraints\<close>, else nothing. Both host calls set the size.
\<close>

definition resizeParent :: "scene \<Rightarrow> ident \<Rightarrow> rat \<Rightarrow> rat \<Rightarrow> scene" where
  "resizeParent s p w h =
     (if hasResize (s p) then s(p := (s p)\<lparr>width := w, height := h\<rparr>)
      else if hasResizeWithoutConstraints (s p) then s(p := (s p)\<lparr>width := w, height := h\<rparr>)
      else s)"

text \<open>The four checks, in the order of the source; each reads the scene as it is then.\<close>

definition expandRight :: "ident \<Rightarrow> ident \<Rightarrow> scene \<Rightarrow> scene" where
  "expandRight nd p s =
     (if xpos (s nd) + width (s nd) > width (s p) - SECTION_PADDING
      then resizeParent s p (xpos (s nd) + width (s nd) + SECTION_PADDING) (height (s p))
      else s)"

definition expandBottom :: "ident \<Rightarrow> ident \<Rightarrow> scene \<Rightarrow> scene" where
  "expandBottom nd p s =
     (if ypos (s nd) + height (s nd) > height (s p) - SECTION_PADDING
      then resizeParent s p (width (s p)) (ypos (s nd) + height (s nd) + SECTION_PADDING)
      else s)"

definition shiftChildX :: "rat \<Rightarrow> scene \<Rightarrow> ident \<Rightarrow> scene" where
  "shiftChildX shift s child =
     (if \<not> locked (s child) then s(child := (s child)\<lparr>xpos := xpos (s child) - shift\<rparr>) else s)"

definition shiftChildY :: "rat \<Rightarrow> scene \<Rightarrow> ident \<Rightarrow> scene" where
  "shiftChildY shift s child =
     (if \<not> locked (s child) then s(child := (s child)\<lparr>ypos := ypos (s child) - shift\<rparr>) else s)"

definition expandLeft :: "ident \<Rightarrow> ident \<Rightarrow> scene \<Rightarrow> scene" where
  "expandLeft nd p s =
     (if xpos (s nd) < SECTION_PADDING then
        let shift = xpos (s nd) - SECTION_PADDING;
            s1 = resizeParent s p (width (s p) - shift) (height (s p));
            s2 = s1(p := (s1 p)\<lparr>xpos := xpos (s1 p) + shift\<rparr>)
        in foldl (shiftChildX shift) s2 (children (s2 p))
      else s)"

definition expandTop :: "ident \<Rightarrow> ident \<Rightarrow> scene \<Rightarrow> scene" where
  "expandTop nd p s =
     (if ypos (s nd) < SECTION_PADDING then
        let shift = ypos (s nd) - SECTION_PADDING;
            s1 = resizeParent s p (width (s p)) (height (s p) - shift);
            s2 = s1(p := (s1 p)\<lparr>ypos := ypos (s1 p) + shift\<rparr>)
        in foldl (shiftChildY shift) s2 (children (s2 p))
      else s)"

definition expandSectionIfNeeded :: "scene \<Rightarrow> ident \<Rightarrow> scene" where
  "expandSectionIfNeeded s nd =
     (case parent (s nd) of
        None \<Rightarrow> s
      | Some p \<Rightarrow>
          if ntype (s p) \<noteq> ''SECTION'' \<or> locked (s p) then s
          else expandTop nd p (expandLeft nd p (expandBottom nd p (expandRight nd p s))))"

section \<open>The host\<close>

text \<open>
  Modelled from the spec: the host's \<^verbatim>\<open>clone\<close>, \<^verbatim>\<open>appendChild\<close> and
  \<^verbatim>\<open>insertChild\<close> are not part of the source. The spec gives cloning as "a new element
  with the same visual content and a fresh identity", geometry and lock flag copied, and
  insertion "at an explicit child index or appended". The copy is made at a given fresh
  identity, detached and without descendants of its own; the host is taken to refuse an
  index outside the child list.
\<close>

definition cloneNode :: "scene \<Rightarrow> ident \<Rightarrow> ident \<Rightarrow> scene" where
  "cloneNode s nd c = s(c := (s nd)\<lparr>parent := None, children := []\<rparr>)"

definition appendChild :: "scene \<Rightarrow> ident \<Rightarrow> ident \<Rightarrow> scene" where
  "appendChild s p c =
     (let s1 = s(c := (s c)\<lparr>parent := Some p\<rparr>)
      in s1(p := (s1 p)\<lparr>children := children (s1 p) @ [c]\<rparr>))"

definition insertChild :: "scene \<Rightarrow> ident \<Rightarrow> nat \<Rightarrow> ident \<Rightarrow> scene" where
  "insertChild s p i c =
     (let s1 = s(c := (s c)\<lparr>parent := Some p\<rparr>)
      in s1(p := (s1 p)\<lparr>children := take i (children (s1 p)) @ [c] @ drop i (children (s1 p))\<rparr>))"

text \<open>\<^verbatim>\<open>Array.prototype.indexOf\<close>: the first position, or -1.\<close>

fun indexOf :: "ident list \<Rightarrow> ident \<Rightarrow> int" where
  "indexOf [] a = - 1"
| "indexOf (b # bs) a =
     (if b = a then 0 else (let i = indexOf bs a in if i < 0 then - 1 else i + 1))"

text \<open>
  What \<^verbatim>\<open>figma.notify\<close> is called with. The direction label of the success message is
  kept as the direction itself.
\<close>

datatype notice =
    SelectAtLeastOne
  | FailedToDuplicate
  | HandledByAutoLayout
  | Duplicated string rat

record world =
  nodes :: scene
  nextId :: ident
  selection :: "ident list"
  notices :: "notice list"

section \<open>The orchestrator (\<^verbatim>\<open>performDuplicate\<close>)\<close>

text \<open>
  The second copy of \<^verbatim>\<open>performDuplicate\<close> is modelled, calling the breadth-first
  \<^verbatim>\<open>pushSiblings\<close>; the first copy differs in calling the corridor variant and in
  making the clones the page's selection at the end.

  \<^verbatim>\<open>[...selection].sort(compare)\<close>: the sort is stable, and with a comparator that is
  a difference of keys every stable sort gives the same list; it is written here as
  insertion from the right, an element going before the first one it does not exceed.
\<close>

definition compareNodes :: "scene \<Rightarrow> string \<Rightarrow> ident \<Rightarrow> ident \<Rightarrow> rat" where
  "compareNodes s direction a b =
     (if includes_str direction ''right'' then xpos (s b) - xpos (s a)
      else if includes_str direction ''left'' then xpos (s a) - xpos (s b)
      else if includes_str direction ''bottom'' then ypos (s b) - ypos (s a)
      else if includes_str direction ''top'' then ypos (s a) - ypos (s b)
      else 0)"

fun insertBy :: "('a \<Rightarrow> 'a \<Rightarrow> rat) \<Rightarrow> 'a \<Rightarrow> 'a list \<Rightarrow> 'a list" where
  "insertBy cmp a [] = [a]"
| "insertBy cmp a (b # bs) = (if cmp a b \<le> 0 then a # b # bs else b # insertBy cmp a bs)"

definition sortBy :: "('a \<Rightarrow> 'a \<Rightarrow> rat) \<Rightarrow> 'a list \<Rightarrow> 'a list" where
  "sortBy cmp xs = foldr (insertBy cmp) xs []"

definition sortedSelection :: "scene \<Rightarrow> string \<Rightarrow> ident list \<Rightarrow> ident list" where
  "sortedSelection s direction sel = sortBy (compareNodes s direction) sel"

text \<open>The locals of the batch, next to the host's state.\<close>

record batch =
  host :: world
  processedIds :: "ident set"
  newSelection :: "ident list"
  autoLayoutWarning :: bool
  lastUsedEffectiveGap :: rat

definition setNodes :: "scene \<Rightarrow> batch \<Rightarrow> batch" where
  "setNodes s b = b\<lparr>host := (host b)\<lparr>nodes := s\<rparr>\<rparr>"

definition notify :: "notice \<Rightarrow> batch \<Rightarrow> batch" where
  "notify m b = b\<lparr>host := (host b)\<lparr>notices := notices (host b) @ [m]\<rparr>\<rparr>"

definition isAutoLayout :: "node \<Rightarrow> bool" where
  "isAutoLayout p = (case layoutMode p of None \<Rightarrow> False | Some m \<Rightarrow> m \<noteq> ''NONE'')"

text \<open>
  The clone's position: \<^verbatim>\<open>clone.x\<close> and \<^verbatim>\<open>clone.y\<close> are set from the original as
  it is after the push.
\<close>

definition placeClone :: "string \<Rightarrow> rat \<Rightarrow> rat \<Rightarrow> ident \<Rightarrow> ident \<Rightarrow> scene \<Rightarrow> scene" where
  "placeClone direction shiftX shiftY nd c s =
     (let s1 = s(c := (s c)\<lparr>xpos :=
                 (if includes_str direction ''left'' then xpos (s nd) - shiftX
                  else if includes_str direction ''right'' then xpos (s nd) + shiftX
                  else xpos (s nd))\<rparr>)
      in s1(c := (s1 c)\<lparr>ypos :=
                 (if includes_str direction ''top'' then ypos (s1 nd) - shiftY
                  else if includes_str direction ''bottom'' then ypos (s1 nd) + shiftY
                  else ypos (s1 nd))\<rparr>))"

text \<open>
  The body of \<^verbatim>\<open>for (const node of sortedSelection)\<close>. \<open>raises nd\<close> says that the
  host's \<^verbatim>\<open>clone\<close> throws for this node; the \<^verbatim>\<open>catch\<close> reports it and the loop goes
  on, with what was pushed before left in place.
\<close>

definition duplicateAutoLayout :: "(ident \<Rightarrow> bool) \<Rightarrow> string \<Rightarrow> ident \<Rightarrow> ident \<Rightarrow> batch \<Rightarrow> batch" where
  "duplicateAutoLayout raises direction nd p b =
     (if raises nd then notify FailedToDuplicate b
      else
        let c = nextId (host b);
            s1 = cloneNode (nodes (host b)) nd c;
            b1 = b\<lparr>host := (host b)\<lparr>nodes := s1, nextId := Suc c\<rparr>\<rparr>;
            index = indexOf (children (s1 p)) nd;
            newIndex = index +
              (if includes_str direction ''right'' \<or> includes_str direction ''bottom'' then 1 else 0)
        in if hasInsertChild (s1 p) then
             (if 0 \<le> newIndex \<and> newIndex \<le> int (length (children (s1 p))) then
                (setNodes (insertChild s1 p (nat newIndex) c) b1)
                  \<lparr>newSelection := newSelection b1 @ [c], autoLayoutWarning := True\<rparr>
              else notify FailedToDuplicate b1)
           else
             (setNodes (appendChild s1 p c) b1)
               \<lparr>newSelection := newSelection b1 @ [c], autoLayoutWarning := True\<rparr>)"

definition duplicateFreeForm ::
  "(ident \<Rightarrow> bool) \<Rightarrow> string \<Rightarrow> rat \<Rightarrow> bool \<Rightarrow> ident \<Rightarrow> ident \<Rightarrow> batch \<Rightarrow> batch" where
  "duplicateFreeForm raises direction effectiveGap pushEnabled nd p b =
     (let shiftX = width (nodes (host b) nd) + effectiveGap;
          shiftY = height (nodes (host b) nd) + effectiveGap;
          s1 = (if pushEnabled
                then pushSiblings (nodes (host b)) nd direction shiftX shiftY (processedIds b)
                else nodes (host b))
      in if raises nd then notify FailedToDuplicate (setNodes s1 b)
         else
           let c = nextId (host b);
               s2 = appendChild (cloneNode s1 nd c) p c;
               s3 = placeClone direction shiftX shiftY nd c s2;
               s4 = expandSectionIfNeeded s3 c
           in b\<lparr>host := (host b)\<lparr>nodes := s4, nextId := Suc c\<rparr>,
                processedIds := insert c (processedIds b),
                newSelection := newSelection b @ [c]\<rparr>)"

definition duplicateOne ::
  "(ident \<Rightarrow> bool) \<Rightarrow> string \<Rightarrow> rat option \<Rightarrow> bool \<Rightarrow> batch \<Rightarrow> ident \<Rightarrow> batch" where
  "duplicateOne raises direction gap pushEnabled b nd =
     (case parent (nodes (host b) nd) of
        None \<Rightarrow> b
      | Some p \<Rightarrow>
          let effectiveGap =
                (case gap of
                   Some g \<Rightarrow> g
                 | None \<Rightarrow> (if width (nodes (host b) nd) > 400 then 100 else 40));
              b1 = b\<lparr>lastUsedEffectiveGap := effectiveGap\<rparr>
          in if isAutoLayout (nodes (host b1) p)
             then duplicateAutoLayout raises direction nd p b1
             else duplicateFreeForm raises direction effectiveGap pushEnabled nd p b1)"

definition startBatch :: "world \<Rightarrow> batch" where
  "startBatch w =
     \<lparr>host = w, processedIds = set (selection w), newSelection = [],
      autoLayoutWarning = False, lastUsedEffectiveGap = 40\<rparr>"

definition finishBatch :: "string \<Rightarrow> batch \<Rightarrow> world" where
  "finishBatch direction b =
     (if newSelection b \<noteq> [] then
        (if autoLayoutWarning b then host (notify HandledByAutoLayout b)
         else host (notify (Duplicated direction (lastUsedEffectiveGap b)) b))
      else host b)"

definition performDuplicate ::
  "(ident \<Rightarrow> bool) \<Rightarrow> world \<Rightarrow> string \<Rightarrow> rat option \<Rightarrow> bool \<Rightarrow> world" where
  "performDuplicate raises w direction gap pushEnabled =
     (if selection w = [] then w\<lparr>notices := notices w @ [SelectAtLeastOne]\<rparr>
      else
        finishBatch direction
          (foldl (duplicateOne raises direction gap pushEnabled) (startBatch w)
             (sortedSelection (nodes w) direction (selection w))))"

section \<open>Conditions used by the theorems\<close>





section \<open>Example scenes\<close>

text \<open>An unlocked 100 by 100 frame at the origin, without parent or children.\<close>

definition frame :: node where
  "frame =
     \<lparr>xpos = 0, ypos = 0, width = 100, height = 100, locked = False, parent = None,
      children = [], ntype = ''FRAME'', layoutMode = None, hasInsertChild = True,
      hasResize = True, hasResizeWithoutConstraints = False\<rparr>"

text \<open>
  A page 0 with three frames in a row: 1 at x = 0, 2 at x = 140 and 3 at x = 300. Pushed
  right by 140, the copy of 1 lands on 2, and 2 lands on 3.
\<close>

definition chainScene :: scene where
  "chainScene =
     (\<lambda>_. frame)
       (0 := frame\<lparr>width := 1000, height := 1000, children := [1, 2, 3]\<rparr>,
        1 := frame\<lparr>parent := Some 0\<rparr>,
        2 := frame\<lparr>parent := Some 0, xpos := 140\<rparr>,
        3 := frame\<lparr>parent := Some 0, xpos := 300\<rparr>)"

text \<open>
  Frame 3, 150 wide at x = 240, starts exactly where the copy of 1 ends (x = 240), and
  frame 2 at x = 200 is under the copy.
\<close>

definition touchScene :: scene where
  "touchScene =
     (\<lambda>_. frame)
       (0 := frame\<lparr>width := 1000, height := 1000, children := [1, 2, 3]\<rparr>,
        1 := frame\<lparr>parent := Some 0\<rparr>,
        2 := frame\<lparr>parent := Some 0, xpos := 200\<rparr>,
        3 := frame\<lparr>parent := Some 0, xpos := 240, width := 150\<rparr>)"

text \<open>Frame 2 alone next to 1, starting exactly where the copy of 1 ends.\<close>

definition adjacentScene :: scene where
  "adjacentScene =
     (\<lambda>_. frame)
       (0 := frame\<lparr>width := 1000, height := 1000, children := [1, 2]\<rparr>,
        1 := frame\<lparr>parent := Some 0\<rparr>,
        2 := frame\<lparr>parent := Some 0, xpos := 240\<rparr>)"

text \<open>The row of \<open>chainScene\<close> with frame 2 locked.\<close>

definition lockedScene :: scene where
  "lockedScene =
     (\<lambda>_. frame)
       (0 := frame\<lparr>width := 1000, height := 1000, children := [1, 2, 3]\<rparr>,
        1 := frame\<lparr>parent := Some 0\<rparr>,
        2 := frame\<lparr>parent := Some 0, xpos := 140, locked := True\<rparr>,
        3 := frame\<lparr>parent := Some 0, xpos := 300\<rparr>)"

text \<open>
  An unlocked section 5, 400 by 400 at (300, 300), holding frame 6 at x = -10, y = 100,
  the locked frame 7 and the unlocked frame 8, both at x = 200.
\<close>

definition sectionScene :: scene where
  "sectionScene =
     (\<lambda>_. frame)
       (5 := frame\<lparr>xpos := 300, ypos := 300, width := 400, height := 400,
                  ntype := ''SECTION'', children := [6, 7, 8], hasResize := False,
                  hasResizeWithoutConstraints := True\<rparr>,
        6 := frame\<lparr>parent := Some 5, xpos := - 10, ypos := 100\<rparr>,
        7 := frame\<lparr>parent := Some 5, xpos := 200, ypos := 100, locked := True\<rparr>,
        8 := frame\<lparr>parent := Some 5, xpos := 200, ypos := 250\<rparr>)"

text \<open>Two frames one above the other at the same x, on page 0.\<close>

definition columnScene :: scene where
  "columnScene =
     (\<lambda>_. frame)
       (0 := frame\<lparr>width := 1000, height := 1000, children := [1, 2]\<rparr>,
        1 := frame\<lparr>parent := Some 0\<rparr>,
        2 := frame\<lparr>parent := Some 0, ypos := 10\<rparr>)"



section \<open>Facts about collision propagation\<close>

text \<open>What one scan adds: the unprocessed children that overlap the rectangle, each once.\<close>

lemma scanSiblings_char:
  "\<exists>new. scanSiblings s d sx sy r cs (mv, pr, q) =
           (mv @ new, pr \<union> set new, q @ map (\<lambda>c. futureRect d sx sy (s c)) new)
        \<and> distinct new
        \<and> set new = {c \<in> set cs. c \<notin> pr \<and> overlaps (s c) r}"
proof (induction cs arbitrary: mv pr q)
  case Nil
  show ?case by simp
next
  case (Cons c cs)
  show ?case
  proof (cases "c \<notin> pr \<and> overlaps (s c) r")
    case False
    from Cons.IH [of mv pr q] obtain new where
      "scanSiblings s d sx sy r cs (mv, pr, q) =
         (mv @ new, pr \<union> set new, q @ map (\<lambda>c. futureRect d sx sy (s c)) new)"
      "distinct new" "set new = {c \<in> set cs. c \<notin> pr \<and> overlaps (s c) r}"
      by blast
    with False show ?thesis
      by (intro exI [of _ new]) auto
  next
    case True
    from Cons.IH [of "mv @ [c]" "insert c pr" "q @ [futureRect d sx sy (s c)]"] obtain new where
      new: "scanSiblings s d sx sy r cs (mv @ [c], insert c pr, q @ [futureRect d sx sy (s c)]) =
         ((mv @ [c]) @ new, insert c pr \<union> set new,
          (q @ [futureRect d sx sy (s c)]) @ map (\<lambda>c. futureRect d sx sy (s c)) new)"
      "distinct new" "set new = {c' \<in> set cs. c' \<notin> insert c pr \<and> overlaps (s c') r}"
      by blast
    with True show ?thesis
      by (intro exI [of _ "c # new"]) auto
  qed
qed

lemma checkLoop_char:
  "\<exists>new. checkLoop s d sx sy cs (mv, pr, q) = mv @ new
        \<and> distinct new
        \<and> set new = {c \<in> set cs. c \<notin> pr \<and>
             (\<exists>r \<in> set q \<union> (\<lambda>b. futureRect d sx sy (s b)) ` set new. overlaps (s c) r)}"
proof (induction s d sx sy cs "(mv, pr, q)" arbitrary: mv pr q rule: checkLoop.induct)
  case (1 s d sx sy cs mv pr)
  show ?case by simp
next
  case (2 s d sx sy cs mv pr r q)
  let ?F = "\<lambda>b. futureRect d sx sy (s b)"
  from scanSiblings_char [of s d sx sy r cs mv pr q] obtain new1 where
    scan: "scanSiblings s d sx sy r cs (mv, pr, q) = (mv @ new1, pr \<union> set new1, q @ map ?F new1)"
    and d1: "distinct new1"
    and s1: "set new1 = {c \<in> set cs. c \<notin> pr \<and> overlaps (s c) r}"
    by blast
  from 2 [OF scan] obtain new2 where
    loop: "checkLoop s d sx sy cs (mv @ new1, pr \<union> set new1, q @ map ?F new1) = (mv @ new1) @ new2"
    and d2: "distinct new2"
    and s2: "set new2 = {c \<in> set cs. c \<notin> pr \<union> set new1 \<and>
               (\<exists>r \<in> set (q @ map ?F new1) \<union> ?F ` set new2. overlaps (s c) r)}"
    by blast
  have disj: "set new1 \<inter> set new2 = {}"
    using s2 by blast
  have "checkLoop s d sx sy cs (mv, pr, r # q) = mv @ (new1 @ new2)"
    using scan loop by simp
  moreover have "distinct (new1 @ new2)"
    using d1 d2 disj by simp
  moreover have "set (new1 @ new2) = {c \<in> set cs. c \<notin> pr \<and>
             (\<exists>r' \<in> set (r # q) \<union> ?F ` set (new1 @ new2). overlaps (s c) r')}"
    (is "?L = ?R")
  proof (intro set_eqI iffI)
    fix c assume "c \<in> ?L"
    then consider "c \<in> set new1" | "c \<in> set new2" by auto
    then show "c \<in> ?R"
    proof cases
      case 1
      then show ?thesis using s1 by auto
    next
      case 2
      then have "c \<in> set cs" "c \<notin> pr"
        and "\<exists>r \<in> set (q @ map ?F new1) \<union> ?F ` set new2. overlaps (s c) r"
        using s2 by blast+
      then show ?thesis by auto
    qed
  next
    fix c assume c: "c \<in> ?R"
    show "c \<in> ?L"
    proof (cases "c \<in> set new1")
      case True
      then show ?thesis by simp
    next
      case False
      with c s1 have nr: "\<not> overlaps (s c) r" by blast
      from c obtain r' where "r' \<in> set (r # q) \<union> ?F ` set (new1 @ new2)" "overlaps (s c) r'"
        by blast
      with nr have "\<exists>r \<in> set (q @ map ?F new1) \<union> ?F ` set new2. overlaps (s c) r"
        by auto
      with c False have "c \<in> set new2"
        using s2 by blast
      then show ?thesis by simp
    qed
  qed
  ultimately show ?case by blast
qed

lemma foldl_moveNode:
  "distinct xs \<Longrightarrow>
   foldl (moveNode d sx sy) s xs i = (if i \<in> set xs then shiftNode d sx sy (s i) else s i)"
proof (induction xs arbitrary: s)
  case Nil
  show ?case by simp
next
  case (Cons x xs)
  define s' where "s' = moveNode d sx sy s x"
  have s': "s' i = (if i = x then shiftNode d sx sy (s x) else s i)"
    by (simp add: s'_def moveNode_def)
  have "foldl (moveNode d sx sy) s (x # xs) i = foldl (moveNode d sx sy) s' xs i"
    by (simp add: s'_def)
  also have "\<dots> = (if i \<in> set xs then shiftNode d sx sy (s' i) else s' i)"
    using Cons.IH [of s'] Cons.prems by simp
  also have "\<dots> = (if i \<in> set (x # xs) then shiftNode d sx sy (s i) else s i)"
    using Cons.prems s' by auto
  finally show ?case .
qed

lemma nodesToMove_distinct: "distinct (nodesToMove s orig p d sx sy ex)"
  using checkLoop_char [of s d sx sy "children (s p)" "[]" ex "[futureRect d sx sy (s orig)]"]
  by (auto simp: nodesToMove_def)

lemma nodesToMove_iff:
  "c \<in> set (nodesToMove s orig p d sx sy ex) \<longleftrightarrow>
     c \<in> set (children (s p)) \<and> c \<notin> ex \<and>
     (overlaps (s c) (futureRect d sx sy (s orig)) \<or>
      (\<exists>b \<in> set (nodesToMove s orig p d sx sy ex). overlaps (s c) (futureRect d sx sy (s b))))"
proof -
  from checkLoop_char [of s d sx sy "children (s p)" "[]" ex "[futureRect d sx sy (s orig)]"]
  obtain new where
    eq: "nodesToMove s orig p d sx sy ex = new"
    and char: "set new = {c \<in> set (children (s p)). c \<notin> ex \<and>
       (\<exists>r \<in> set [futureRect d sx sy (s orig)] \<union> (\<lambda>b. futureRect d sx sy (s b)) ` set new.
          overlaps (s c) r)}"
    by (auto simp: nodesToMove_def)
  have "c \<in> set new \<longleftrightarrow> c \<in> set (children (s p)) \<and> c \<notin> ex \<and>
       (\<exists>r \<in> set [futureRect d sx sy (s orig)] \<union> (\<lambda>b. futureRect d sx sy (s b)) ` set new.
          overlaps (s c) r)"
    by (subst char) simp
  then show ?thesis
    unfolding eq by auto
qed

lemma pushSiblings_apply:
  "parent (s orig) = Some p \<Longrightarrow>
   pushSiblings s orig d sx sy ex i =
     (if i \<in> set (nodesToMove s orig p d sx sy ex) then shiftNode d sx sy (s i) else s i)"
  by (simp add: pushSiblings_def foldl_moveNode nodesToMove_distinct)

lemma pushSiblings_no_parent:
  "parent (s orig) = None \<Longrightarrow> pushSiblings s orig d sx sy ex = s"
  by (simp add: pushSiblings_def)

lemma corridorStep_excluded:
  "i \<in> ex \<Longrightarrow> corridorStep orig d sx sy ex s sib i = s i"
  by (auto simp: corridorStep_def Let_def)

lemma foldl_corridorStep_excluded:
  "i \<in> ex \<Longrightarrow> foldl (corridorStep orig d sx sy ex) s cs i = s i"
  by (induction cs arbitrary: s) (simp_all add: corridorStep_excluded)

lemma pushSiblings_excluded:
  "i \<in> ex \<Longrightarrow> pushSiblings s orig d sx sy ex i = s i"
proof (cases "parent (s orig)")
  case None
  then show ?thesis by (simp add: pushSiblings_no_parent)
next
  case (Some p)
  assume "i \<in> ex"
  then have "i \<notin> set (nodesToMove s orig p d sx sy ex)"
    using nodesToMove_iff [of i s orig p d sx sy ex] by blast
  with Some show ?thesis by (simp add: pushSiblings_apply)
qed

lemma pushSiblingsCorridor_excluded:
  "i \<in> ex \<Longrightarrow> pushSiblingsCorridor s orig d sx sy ex i = s i"
  by (simp add: pushSiblingsCorridor_def foldl_corridorStep_excluded split: option.splits)

text \<open>
  The corridor variant has no target rectangle: it moves whatever lies beyond the
  original inside its corridor, also a sibling the copy would only touch.
\<close>

lemma pushSiblingsCorridor_adjacent:
  "xpos (pushSiblingsCorridor adjacentScene 1 ''right'' 140 140 {1} 2) = 380"
  by (simp add: pushSiblingsCorridor_def corridorStep_def Let_def margin_def
      adjacentScene_def frame_def)

lemma checkLoopWithin_enough:
  "length q + card (set cs - pr) \<le> n \<Longrightarrow>
   checkLoopWithin n s d sx sy cs (mv, pr, q) = Some (checkLoop s d sx sy cs (mv, pr, q))"
proof (induction s d sx sy cs "(mv, pr, q)" arbitrary: mv pr q n rule: checkLoop.induct)
  case (1 s d sx sy cs mv pr)
  show ?case by simp
next
  case (2 s d sx sy cs mv pr r q)
  obtain mv' pr' q' where
    scan: "scanSiblings s d sx sy r cs (mv, pr, q) = (mv', pr', q')"
    by (metis prod_cases3)
  have m: "card (set cs - pr') + length q' = card (set cs - pr) + length q"
    by (rule scanSiblings_measure [OF scan]) simp_all
  from "2.prems" obtain k where n: "n = Suc k"
    by (cases n) simp_all
  with "2.prems" m have "length q' + card (set cs - pr') \<le> k"
    by simp
  from "2.hyps" [OF scan this] show ?case
    by (simp add: n scan)
qed

lemma checkLoop_total: "checkLoop_dom x"
proof -
  have "All checkLoop_dom"
  proof (relation "measure (\<lambda>(s, d, sx, sy, cs, mv, pr, q). card (set cs - pr) + length q)")
    show "wf (measure (\<lambda>(s, d, sx, sy, cs, mv, pr, q). card (set cs - pr) + length q))"
      by simp
  next
    fix s :: scene and direction shiftX shiftY siblings nodesToMove
      and processed :: "ident set" and r and checkQueue :: "rect list"
    obtain mv' pr' q' where
      scan: "scanSiblings s direction shiftX shiftY r siblings (nodesToMove, processed, checkQueue)
               = (mv', pr', q')"
      by (metis prod_cases3)
    have "card (set siblings - pr') + length q' = card (set siblings - processed) + length checkQueue"
      by (rule scanSiblings_measure [OF scan]) simp_all
    then show "((s, direction, shiftX, shiftY, siblings,
                  scanSiblings s direction shiftX shiftY r siblings (nodesToMove, processed, checkQueue)),
                 (s, direction, shiftX, shiftY, siblings, nodesToMove, processed, r # checkQueue))
               \<in> measure (\<lambda>(s, d, sx, sy, cs, mv, pr, q). card (set cs - pr) + length q)"
      by (simp add: scan)
  qed
  then show ?thesis by (rule spec)
qed

lemma nodesToMove_subset:
  "set (nodesToMove s orig p d sx sy ex) \<subseteq> set (children (s p)) - ex"
  using nodesToMove_iff [of _ s orig p d sx sy ex] by blast

lemma nodesToMove_length:
  "length (nodesToMove s orig p d sx sy ex) \<le> length (children (s p))"
proof -
  have "length (nodesToMove s orig p d sx sy ex) = card (set (nodesToMove s orig p d sx sy ex))"
    by (simp add: distinct_card nodesToMove_distinct)
  also have "\<dots> \<le> card (set (children (s p)))"
    using nodesToMove_subset [of s orig p d sx sy ex] by (intro card_mono) auto
  also have "\<dots> \<le> length (children (s p))"
    by (rule card_length)
  finally show ?thesis .
qed

lemma overlaps_withLocks [simp]: "overlaps (withLocks L s c) r = overlaps (s c) r"
  by (simp add: withLocks_def overlaps_def)

lemma futureRect_withLocks [simp]:
  "futureRect d sx sy (withLocks L s c) = futureRect d sx sy (s c)"
  by (simp add: withLocks_def futureRect_def)

lemma scanSiblings_withLocks:
  "scanSiblings (withLocks L s) d sx sy r cs st = scanSiblings s d sx sy r cs st"
proof (induction cs arbitrary: st)
  case Nil
  show ?case by simp
next
  case (Cons c cs)
  obtain mv pr q where st: "st = (mv, pr, q)"
    by (metis prod_cases3)
  show ?case
    unfolding st by (simp add: Cons.IH)
qed

lemma checkLoop_withLocks:
  "checkLoop (withLocks L s) d sx sy cs (mv, pr, q) = checkLoop s d sx sy cs (mv, pr, q)"
proof (induction s d sx sy cs "(mv, pr, q)" arbitrary: mv pr q rule: checkLoop.induct)
  case (1 s d sx sy cs mv pr)
  show ?case by simp
next
  case (2 s d sx sy cs mv pr r q)
  obtain mv' pr' q' where
    scan: "scanSiblings s d sx sy r cs (mv, pr, q) = (mv', pr', q')"
    by (metis prod_cases3)
  from "2.hyps" [OF scan] show ?case
    by (simp add: scanSiblings_withLocks scan)
qed

lemma moveNode_withLocks:
  "moveNode d sx sy (withLocks L s) x = withLocks L (moveNode d sx sy s x)"
  by (auto simp: moveNode_def withLocks_def shiftNode_def fun_eq_iff)

lemma foldl_moveNode_withLocks:
  "foldl (moveNode d sx sy) (withLocks L s) xs = withLocks L (foldl (moveNode d sx sy) s xs)"
  by (induction xs arbitrary: s) (simp_all add: moveNode_withLocks)

lemma pushSiblings_withLocks:
  "pushSiblings (withLocks L s) orig d sx sy ex = withLocks L (pushSiblings s orig d sx sy ex)"
proof (cases "parent (s orig)")
  case None
  then show ?thesis
    by (simp add: pushSiblings_def withLocks_def)
next
  case (Some p)
  have cs: "children (withLocks L s p) = children (s p)"
    by (simp add: withLocks_def)
  have "nodesToMove (withLocks L s) orig p d sx sy ex = nodesToMove s orig p d sx sy ex"
    unfolding nodesToMove_def cs futureRect_withLocks by (rule checkLoop_withLocks)
  moreover have "parent (withLocks L s orig) = Some p"
    using Some by (simp add: withLocks_def)
  ultimately show ?thesis
    using Some by (simp add: pushSiblings_def foldl_moveNode_withLocks)
qed

lemma corridorStep_withLocks:
  "corridorStep orig d sx sy ex (withLocks L s) sib =
   withLocks L (corridorStep orig d sx sy ex s sib)"
  by (auto simp: corridorStep_def withLocks_def Let_def fun_eq_iff)

lemma foldl_corridorStep_withLocks:
  "foldl (corridorStep orig d sx sy ex) (withLocks L s) cs =
   withLocks L (foldl (corridorStep orig d sx sy ex) s cs)"
  by (induction cs arbitrary: s) (simp_all add: corridorStep_withLocks)

lemma pushSiblingsCorridor_withLocks:
  "pushSiblingsCorridor (withLocks L s) orig d sx sy ex =
   withLocks L (pushSiblingsCorridor s orig d sx sy ex)"
proof (cases "parent (s orig)")
  case None
  then show ?thesis
    by (simp add: pushSiblingsCorridor_def withLocks_def)
next
  case (Some p)
  moreover have "parent (withLocks L s orig) = Some p" "children (withLocks L s p) = children (s p)"
    using Some by (simp_all add: withLocks_def)
  ultimately show ?thesis
    by (simp add: pushSiblingsCorridor_def foldl_corridorStep_withLocks)
qed

lemmas scene_eval =
  pushSiblings_def nodesToMove_def moveNode_def shiftNode_def futureRect_def
  offsetX_def offsetY_def overlaps_def margin_def frame_def

section \<open>Claims about collision propagation\<close>

text \<open>
  C1, as amended. If the original's target rectangle overlaps sibling \<open>b\<close>, \<open>b\<close> is
  not excluded, and the rectangle of \<open>b\<close> shifted by the same rule overlaps sibling
  \<open>c\<close>, not excluded either, then \<open>c\<close> is displaced by exactly the signed offsets of the
  direction, the same displacement as \<open>b\<close>.
\<close>

theorem chain_displaced:
  assumes "parent (s orig) = Some p"
    and "b \<in> set (children (s p))" and "b \<notin> excludedIds"
    and "overlaps (s b) (futureRect d shiftX shiftY (s orig))"
    and "c \<in> set (children (s p))" and "c \<notin> excludedIds"
    and "overlaps (s c) (futureRect d shiftX shiftY (s b))"
  shows "xpos (pushSiblings s orig d shiftX shiftY excludedIds c) = xpos (s c) + offsetX d shiftX
       \<and> ypos (pushSiblings s orig d shiftX shiftY excludedIds c) = ypos (s c) + offsetY d shiftY
       \<and> xpos (pushSiblings s orig d shiftX shiftY excludedIds b) = xpos (s b) + offsetX d shiftX
       \<and> ypos (pushSiblings s orig d shiftX shiftY excludedIds b) = ypos (s b) + offsetY d shiftY"
proof -
  have b: "b \<in> set (nodesToMove s orig p d shiftX shiftY excludedIds)"
    using assms(2-4) nodesToMove_iff [of b s orig p d shiftX shiftY excludedIds] by blast
  then have c: "c \<in> set (nodesToMove s orig p d shiftX shiftY excludedIds)"
    using assms(5-7) nodesToMove_iff [of c s orig p d shiftX shiftY excludedIds] by blast
  from b c show ?thesis
    by (simp add: pushSiblings_apply [where s = s and orig = orig, OF assms(1)] shiftNode_def)
qed

theorem chain_displaced_witness:
  "xpos (pushSiblings chainScene 1 ''right'' 140 140 {1} 3) = 440
 \<and> ypos (pushSiblings chainScene 1 ''right'' 140 140 {1} 3) = 0
 \<and> xpos (pushSiblings chainScene 1 ''right'' 140 140 {1} 2) = 280
 \<and> ypos (pushSiblings chainScene 1 ''right'' 140 140 {1} 2) = 0"
  using chain_displaced [of chainScene 1 0 2 "{1}" "''right''" 140 140 3]
  by (simp add: chainScene_def frame_def futureRect_def offsetX_def offsetY_def
      overlaps_def margin_def)

text \<open>
  C1 as stated does not ask that \<open>b\<close> is outside the excluded set. In \<open>chainScene\<close> with
  1 and 2 both excluded (both selected), the target rectangle of 1 overlaps 2 and the
  shifted rectangle of 2 overlaps 3, yet 3 stays where it is.
\<close>

theorem chain_displaced_counterexample:
  "parent (chainScene 1) = Some 0
 \<and> 2 \<in> set (children (chainScene 0))
 \<and> overlaps (chainScene 2) (futureRect ''right'' 140 140 (chainScene 1))
 \<and> 3 \<in> set (children (chainScene 0)) \<and> 3 \<notin> {1, 2 :: ident} \<and> (3 :: ident) \<noteq> 2 \<and> (3 :: ident) \<noteq> 1
 \<and> overlaps (chainScene 3) (futureRect ''right'' 140 140 (chainScene 2))
 \<and> offsetX ''right'' 140 = 140
 \<and> xpos (pushSiblings chainScene 1 ''right'' 140 140 {1, 2} 3) = xpos (chainScene 3)
 \<and> xpos (pushSiblings chainScene 1 ''right'' 140 140 {1, 2} 3)
     \<noteq> xpos (chainScene 3) + offsetX ''right'' 140"
  by (simp add: scene_eval chainScene_def)

text \<open>
  C2, as amended. A sibling that overlaps, margin taken off, neither the target
  rectangle nor the future rectangle of any sibling the call displaces is not displaced:
  it is the same after the call. Touching the target rectangle is not overlapping it.
\<close>

theorem untouched_sibling_not_displaced:
  assumes "parent (s orig) = Some p"
    and "\<not> overlaps (s i) (futureRect d shiftX shiftY (s orig))"
    and "\<forall>b \<in> set (nodesToMove s orig p d shiftX shiftY excludedIds).
           \<not> overlaps (s i) (futureRect d shiftX shiftY (s b))"
  shows "pushSiblings s orig d shiftX shiftY excludedIds i = s i"
proof -
  have "i \<notin> set (nodesToMove s orig p d shiftX shiftY excludedIds)"
    using assms(2,3) nodesToMove_iff [of i s orig p d shiftX shiftY excludedIds] by blast
  then show ?thesis
    by (simp add: pushSiblings_apply [where s = s and orig = orig, OF assms(1)])
qed

theorem untouched_sibling_not_displaced_witness:
  "xpos (adjacentScene 2) = rx (futureRect ''right'' 140 140 (adjacentScene 1))
                          + rwidth (futureRect ''right'' 140 140 (adjacentScene 1))
 \<and> pushSiblings adjacentScene 1 ''right'' 140 140 {1} 2 = adjacentScene 2"
  using untouched_sibling_not_displaced [of adjacentScene 1 0 2 "''right''" 140 140 "{1}"]
  by (simp add: adjacentScene_def frame_def nodesToMove_def futureRect_def offsetX_def offsetY_def
      overlaps_def margin_def)

text \<open>
  C2 as stated fails along a chain. In \<open>touchScene\<close> frame 3 starts exactly at the right
  edge of the target rectangle and does not overlap it, but frame 2 is under the target
  rectangle and its future rectangle overlaps 3: frame 3 is moved from 240 to 380.
\<close>

theorem untouched_sibling_counterexample:
  "xpos (touchScene 3) = rx (futureRect ''right'' 140 140 (touchScene 1))
                        + rwidth (futureRect ''right'' 140 140 (touchScene 1))
 \<and> \<not> overlaps (touchScene 3) (futureRect ''right'' 140 140 (touchScene 1))
 \<and> xpos (touchScene 3) = 240
 \<and> xpos (pushSiblings touchScene 1 ''right'' 140 140 {1} 3) = 380"
  by (simp add: scene_eval touchScene_def)

text \<open>
  C3. A sibling whose identity is in the excluded set is the same after the call as
  before, in the breadth-first \<^verbatim>\<open>pushSiblings\<close> and in the corridor variant.
\<close>

theorem excluded_never_moved:
  assumes "i \<in> excludedIds"
  shows "pushSiblings s orig d shiftX shiftY excludedIds i = s i
       \<and> pushSiblingsCorridor s orig d shiftX shiftY excludedIds i = s i"
  using assms by (simp add: pushSiblings_excluded pushSiblingsCorridor_excluded)

theorem excluded_never_moved_witness:
  "overlaps (chainScene 2) (futureRect ''right'' 140 140 (chainScene 1))
 \<and> pushSiblings chainScene 1 ''right'' 140 140 {1, 2} 2 = chainScene 2
 \<and> pushSiblingsCorridor chainScene 1 ''right'' 140 140 {1, 2} 2 = chainScene 2"
  using excluded_never_moved [of 2 "{1, 2}" chainScene 1 "''right''" 140 140]
  by (simp add: chainScene_def frame_def futureRect_def offsetX_def offsetY_def
      overlaps_def margin_def)

text \<open>
  C8. The traversal terminates from every state of the loop: the recursion is
  well-founded, and the queue is empty after at most as many iterations as there are
  rectangles in it plus siblings not yet processed. Each sibling is collected at most
  once, the collected ones are children of the parent outside the excluded set, and the
  call shifts each collected sibling exactly once and nothing else.
\<close>

theorem collision_traversal_terminates:
  "checkLoop_dom (s, d, shiftX, shiftY, cs, mv, pr, q)
 \<and> checkLoopWithin (length q + card (set cs - pr)) s d shiftX shiftY cs (mv, pr, q)
     = Some (checkLoop s d shiftX shiftY cs (mv, pr, q))
 \<and> distinct (nodesToMove s orig p d shiftX shiftY excludedIds)
 \<and> set (nodesToMove s orig p d shiftX shiftY excludedIds) \<subseteq> set (children (s p)) - excludedIds
 \<and> length (nodesToMove s orig p d shiftX shiftY excludedIds) \<le> length (children (s p))
 \<and> (parent (s orig) = Some p \<longrightarrow>
      (\<forall>i. pushSiblings s orig d shiftX shiftY excludedIds i =
        (if i \<in> set (nodesToMove s orig p d shiftX shiftY excludedIds)
         then shiftNode d shiftX shiftY (s i) else s i)))"
  using checkLoop_total checkLoopWithin_enough [OF order_refl] nodesToMove_distinct
    nodesToMove_subset nodesToMove_length pushSiblings_apply
  by simp

theorem collision_traversal_terminates_witness:
  "checkLoopWithin 3 chainScene ''right'' 140 140 [1, 2, 3]
     ([], {1}, [futureRect ''right'' 140 140 (chainScene 1)]) = Some [2, 3]
 \<and> nodesToMove chainScene 1 0 ''right'' 140 140 {1} = [2, 3]
 \<and> xpos (pushSiblings chainScene 1 ''right'' 140 140 {1} 2) = 280
 \<and> xpos (pushSiblings chainScene 1 ''right'' 140 140 {1} 3) = 440
 \<and> pushSiblings chainScene 1 ''right'' 140 140 {1} 1 = chainScene 1"
  using collision_traversal_terminates [of chainScene "''right''" 140 140 "[1, 2, 3]" "[]" "{1}"
      "[futureRect ''right'' 140 140 (chainScene 1)]" 1 0 "{1}"]
  by (simp add: scene_eval chainScene_def eval_nat_numeral)

text \<open>
  C10. Collision propagation never reads a lock flag: run on a scene with any other
  assignment \<open>L\<close> of lock flags, it moves the same nodes by the same amounts and leaves
  the flags as it found them, in the breadth-first \<^verbatim>\<open>pushSiblings\<close> and in the
  corridor variant. In particular a locked sibling outside the excluded set that overlaps
  the target rectangle, or the future rectangle of a displaced sibling, is displaced by
  the signed offsets like any other.
\<close>

theorem locked_flag_not_consulted:
  assumes "parent (s orig) = Some p"
    and "b \<in> set (children (s p))" and "b \<notin> excludedIds" and "locked (s b)"
    and "overlaps (s b) (futureRect d shiftX shiftY (s orig)) \<or>
         (\<exists>a \<in> set (nodesToMove s orig p d shiftX shiftY excludedIds).
            overlaps (s b) (futureRect d shiftX shiftY (s a)))"
  shows "pushSiblings s orig d shiftX shiftY excludedIds b = shiftNode d shiftX shiftY (s b)
       \<and> xpos (pushSiblings s orig d shiftX shiftY excludedIds b) = xpos (s b) + offsetX d shiftX
       \<and> ypos (pushSiblings s orig d shiftX shiftY excludedIds b) = ypos (s b) + offsetY d shiftY
       \<and> pushSiblings (withLocks L s) orig d shiftX shiftY excludedIds
           = withLocks L (pushSiblings s orig d shiftX shiftY excludedIds)
       \<and> pushSiblingsCorridor (withLocks L s) orig d shiftX shiftY excludedIds
           = withLocks L (pushSiblingsCorridor s orig d shiftX shiftY excludedIds)"
proof -
  have "b \<in> set (nodesToMove s orig p d shiftX shiftY excludedIds)"
    using assms(2,3,5) nodesToMove_iff [of b s orig p d shiftX shiftY excludedIds] by blast
  then show ?thesis
    by (simp add: pushSiblings_apply [where s = s and orig = orig, OF assms(1)] shiftNode_def pushSiblings_withLocks
        pushSiblingsCorridor_withLocks)
qed

theorem locked_flag_not_consulted_witness:
  "locked (lockedScene 2)
 \<and> xpos (lockedScene 2) = 140
 \<and> xpos (pushSiblings lockedScene 1 ''right'' 140 140 {1} 2) = 280
 \<and> pushSiblings (withLocks (\<lambda>_. False) lockedScene) 1 ''right'' 140 140 {1}
     = withLocks (\<lambda>_. False) (pushSiblings lockedScene 1 ''right'' 140 140 {1})"
  using locked_flag_not_consulted [of lockedScene 1 0 2 "{1}" "''right''" 140 140 "\<lambda>_. False"]
  by (simp add: lockedScene_def frame_def futureRect_def offsetX_def offsetY_def
      overlaps_def margin_def shiftNode_def)

section \<open>Claims about the gap policy and the empty selection\<close>

text \<open>
  C6. \<^verbatim>\<open>getDetectedGap\<close> returns 40 for an empty (or absent) selection; for a
  non-empty one the result depends on the width of the first element only: 100 if it is
  strictly greater than 400, else 40.
\<close>

theorem detected_gap:
  "getDetectedGap None = 40
 \<and> getDetectedGap (Some []) = 40
 \<and> getDetectedGap (Some (n # ns)) = (if width n > 400 then 100 else 40)"
  by (simp add: getDetectedGap_def)

theorem detected_gap_witness:
  "getDetectedGap (Some [frame\<lparr>width := 401\<rparr>, frame]) = 100
 \<and> getDetectedGap (Some [frame\<lparr>width := 400\<rparr>, frame\<lparr>width := 900\<rparr>]) = 40"
  using detected_gap [of "frame\<lparr>width := 401\<rparr>" "[frame]"]
    detected_gap [of "frame\<lparr>width := 400\<rparr>" "[frame\<lparr>width := 900\<rparr>]"]
  by simp

text \<open>
  C9. With an empty selection \<^verbatim>\<open>performDuplicate\<close> returns after one notice asking
  for a selection: no node is created (the next fresh identity is the same), the scene
  and the selection are the same, and nothing else is reported.
\<close>

theorem empty_selection_no_effect:
  assumes "selection w = []"
  shows "nodes (performDuplicate raises w d gap pushEnabled) = nodes w
       \<and> nextId (performDuplicate raises w d gap pushEnabled) = nextId w
       \<and> selection (performDuplicate raises w d gap pushEnabled) = []
       \<and> notices (performDuplicate raises w d gap pushEnabled) = notices w @ [SelectAtLeastOne]"
  using assms by (simp add: performDuplicate_def)

theorem empty_selection_no_effect_witness:
  "nodes (performDuplicate (\<lambda>_. False)
      \<lparr>nodes = chainScene, nextId = 4, selection = [], notices = []\<rparr> ''right'' None True) = chainScene
 \<and> nextId (performDuplicate (\<lambda>_. False)
      \<lparr>nodes = chainScene, nextId = 4, selection = [], notices = []\<rparr> ''right'' None True) = 4
 \<and> notices (performDuplicate (\<lambda>_. False)
      \<lparr>nodes = chainScene, nextId = 4, selection = [], notices = []\<rparr> ''right'' None True)
     = [SelectAtLeastOne]"
  using empty_selection_no_effect
    [of "\<lparr>nodes = chainScene, nextId = 4, selection = [], notices = []\<rparr>" "\<lambda>_. False" "''right''" None True]
  by simp

section \<open>Container adaptation\<close>

lemma resizeParent_apply:
  "resizeParent s p w h i =
     (if i = p \<and> (hasResize (s p) \<or> hasResizeWithoutConstraints (s p))
      then (s p)\<lparr>width := w, height := h\<rparr> else s i)"
  by (simp add: resizeParent_def)

lemma foldl_shiftChildX:
  "distinct cs \<Longrightarrow>
   foldl (shiftChildX sh) s cs i =
     (if i \<in> set cs \<and> \<not> locked (s i) then (s i)\<lparr>xpos := xpos (s i) - sh\<rparr> else s i)"
proof (induction cs arbitrary: s)
  case Nil
  show ?case by simp
next
  case (Cons c cs)
  define s' where "s' = shiftChildX sh s c"
  have s': "s' j = (if j = c \<and> \<not> locked (s c) then (s c)\<lparr>xpos := xpos (s c) - sh\<rparr> else s j)" for j
    by (simp add: s'_def shiftChildX_def)
  have "foldl (shiftChildX sh) s (c # cs) i = foldl (shiftChildX sh) s' cs i"
    by (simp add: s'_def)
  also have "\<dots> = (if i \<in> set cs \<and> \<not> locked (s' i) then (s' i)\<lparr>xpos := xpos (s' i) - sh\<rparr> else s' i)"
    using Cons.IH [of s'] Cons.prems by simp
  also have "\<dots> = (if i \<in> set (c # cs) \<and> \<not> locked (s i) then (s i)\<lparr>xpos := xpos (s i) - sh\<rparr> else s i)"
    using Cons.prems by (auto simp: s')
  finally show ?case .
qed

lemma foldl_shiftChildY:
  "distinct cs \<Longrightarrow>
   foldl (shiftChildY sh) s cs i =
     (if i \<in> set cs \<and> \<not> locked (s i) then (s i)\<lparr>ypos := ypos (s i) - sh\<rparr> else s i)"
proof (induction cs arbitrary: s)
  case Nil
  show ?case by simp
next
  case (Cons c cs)
  define s' where "s' = shiftChildY sh s c"
  have s': "s' j = (if j = c \<and> \<not> locked (s c) then (s c)\<lparr>ypos := ypos (s c) - sh\<rparr> else s j)" for j
    by (simp add: s'_def shiftChildY_def)
  have "foldl (shiftChildY sh) s (c # cs) i = foldl (shiftChildY sh) s' cs i"
    by (simp add: s'_def)
  also have "\<dots> = (if i \<in> set cs \<and> \<not> locked (s' i) then (s' i)\<lparr>ypos := ypos (s' i) - sh\<rparr> else s' i)"
    using Cons.IH [of s'] Cons.prems by simp
  also have "\<dots> = (if i \<in> set (c # cs) \<and> \<not> locked (s i) then (s i)\<lparr>ypos := ypos (s i) - sh\<rparr> else s i)"
    using Cons.prems by (auto simp: s')
  finally show ?case .
qed

text \<open>The first two checks only resize the parent.\<close>

lemma expandRight_apply:
  "expandRight nd p s i =
     (if i = p \<and> (hasResize (s p) \<or> hasResizeWithoutConstraints (s p))
         \<and> xpos (s nd) + width (s nd) > width (s p) - SECTION_PADDING
      then (s p)\<lparr>width := xpos (s nd) + width (s nd) + SECTION_PADDING\<rparr> else s i)"
  by (simp add: expandRight_def resizeParent_apply)

lemma expandBottom_apply:
  "expandBottom nd p s i =
     (if i = p \<and> (hasResize (s p) \<or> hasResizeWithoutConstraints (s p))
         \<and> ypos (s nd) + height (s nd) > height (s p) - SECTION_PADDING
      then (s p)\<lparr>height := ypos (s nd) + height (s nd) + SECTION_PADDING\<rparr> else s i)"
  by (simp add: expandBottom_def resizeParent_apply)

lemma expandLeft_apply:
  assumes "distinct (children (s p))" and "p \<notin> set (children (s p))"
    and "hasResize (s p) \<or> hasResizeWithoutConstraints (s p)"
    and "xpos (s nd) < SECTION_PADDING"
  shows "expandLeft nd p s i =
     (if i = p then (s p)\<lparr>width := width (s p) - (xpos (s nd) - SECTION_PADDING),
                           xpos := xpos (s p) + (xpos (s nd) - SECTION_PADDING)\<rparr>
      else if i \<in> set (children (s p)) \<and> \<not> locked (s i)
      then (s i)\<lparr>xpos := xpos (s i) - (xpos (s nd) - SECTION_PADDING)\<rparr>
      else s i)"
  using assms
  by (auto simp: expandLeft_def Let_def resizeParent_apply foldl_shiftChildX)

lemma expandTop_xpos:
  assumes "distinct (children (s p))"
  shows "xpos (expandTop nd p s i) = xpos (s i) \<and> width (expandTop nd p s i) = width (s i)"
  using assms
  by (auto simp: expandTop_def Let_def resizeParent_apply foldl_shiftChildY)

text \<open>
  C5. For an element \<open>nd\<close> inside an unlocked, resizable section \<open>p\<close> whose left edge is
  less than the padding 80, with \<open>shift = x - 80\<close>: the left-edge check grows the
  section's width by \<open>- shift\<close> (from what the right-edge check left), the section's own
  x decreases by \<open>- shift\<close>, the x of every unlocked child increases by \<open>- shift\<close>, and
  the x of every locked child is as before. The child list is taken without repetition
  and the section is not its own child.
\<close>

theorem section_grows_left:
  assumes "parent (s nd) = Some p" and "nd \<noteq> p"
    and "ntype (s p) = ''SECTION''" and "\<not> locked (s p)"
    and "hasResize (s p) \<or> hasResizeWithoutConstraints (s p)"
    and "distinct (children (s p))" and "p \<notin> set (children (s p))"
    and "xpos (s nd) < 80"
  shows "width (expandLeft nd p s p) = width (s p) - (xpos (s nd) - 80)
       \<and> xpos (expandSectionIfNeeded s nd p) = xpos (s p) + (xpos (s nd) - 80)
       \<and> width (expandSectionIfNeeded s nd p) =
           (if xpos (s nd) + width (s nd) > width (s p) - 80
            then xpos (s nd) + width (s nd) + 80 else width (s p)) - (xpos (s nd) - 80)
       \<and> (\<forall>ch \<in> set (children (s p)).
             xpos (expandSectionIfNeeded s nd ch) =
               (if locked (s ch) then xpos (s ch) else xpos (s ch) - (xpos (s nd) - 80)))"
proof -
  define s2 where "s2 = expandBottom nd p (expandRight nd p s)"
  define s3 where "s3 = expandLeft nd p s2"
  have s2_other: "s2 i = s i" if "i \<noteq> p" for i
    using that by (simp add: s2_def expandBottom_apply expandRight_apply)
  have s2_nd: "s2 nd = s nd"
    using assms(2) by (rule s2_other)
  have s2_p: "children (s2 p) = children (s p)" "xpos (s2 p) = xpos (s p)"
    "hasResize (s2 p) = hasResize (s p)"
    "hasResizeWithoutConstraints (s2 p) = hasResizeWithoutConstraints (s p)"
    "width (s2 p) = (if xpos (s nd) + width (s nd) > width (s p) - 80
                     then xpos (s nd) + width (s nd) + 80 else width (s p))"
    using assms(5) by (auto simp: s2_def expandBottom_apply expandRight_apply SECTION_PADDING_def)
  have s3: "s3 i =
     (if i = p then (s2 p)\<lparr>width := width (s2 p) - (xpos (s nd) - SECTION_PADDING),
                            xpos := xpos (s2 p) + (xpos (s nd) - SECTION_PADDING)\<rparr>
      else if i \<in> set (children (s p)) \<and> \<not> locked (s2 i)
      then (s2 i)\<lparr>xpos := xpos (s2 i) - (xpos (s nd) - SECTION_PADDING)\<rparr>
      else s2 i)" for i
    unfolding s3_def
    using expandLeft_apply [of s2 p nd i] assms(5-8)
    by (simp add: s2_p s2_nd SECTION_PADDING_def)
  have ch3: "distinct (children (s3 p))"
    using assms(6) by (simp add: s3 s2_p)
  have whole: "expandSectionIfNeeded s nd = expandTop nd p s3"
    using assms(1,3,4) by (simp add: expandSectionIfNeeded_def s3_def s2_def)
  have x4: "xpos (expandSectionIfNeeded s nd i) = xpos (s3 i)"
    and w4: "width (expandSectionIfNeeded s nd i) = width (s3 i)" for i
    using expandTop_xpos [of s3 p nd i] ch3 by (simp_all add: whole)
  have step: "width (expandLeft nd p s p) = width (s p) - (xpos (s nd) - 80)"
    using expandLeft_apply [of s p nd p] assms(5-8) by (simp add: SECTION_PADDING_def)
  have px: "xpos (expandSectionIfNeeded s nd p) = xpos (s p) + (xpos (s nd) - 80)"
    by (simp add: x4 s3 s2_p SECTION_PADDING_def)
  have pw: "width (expandSectionIfNeeded s nd p) =
           (if xpos (s nd) + width (s nd) > width (s p) - 80
            then xpos (s nd) + width (s nd) + 80 else width (s p)) - (xpos (s nd) - 80)"
    by (simp add: w4 s3 s2_p SECTION_PADDING_def)
  have chx: "xpos (expandSectionIfNeeded s nd ch) =
               (if locked (s ch) then xpos (s ch) else xpos (s ch) - (xpos (s nd) - 80))"
    if "ch \<in> set (children (s p))" for ch
  proof -
    from that assms(7) have "ch \<noteq> p" by auto
    with that show ?thesis
      by (simp add: x4 s3 s2_other SECTION_PADDING_def)
  qed
  from step px pw chx show ?thesis by blast
qed

theorem section_grows_left_witness:
  "xpos (sectionScene 6) = - 10
 \<and> xpos (sectionScene 5) = 300 \<and> xpos (expandSectionIfNeeded sectionScene 6 5) = 210
 \<and> width (sectionScene 5) = 400 \<and> width (expandSectionIfNeeded sectionScene 6 5) = 490
 \<and> xpos (expandSectionIfNeeded sectionScene 6 6) = 80
 \<and> locked (sectionScene 7) \<and> xpos (expandSectionIfNeeded sectionScene 6 7) = 200
 \<and> xpos (sectionScene 8) = 200 \<and> xpos (expandSectionIfNeeded sectionScene 6 8) = 290"
  using section_grows_left [of sectionScene 6 5]
  by (simp add: sectionScene_def frame_def)

section \<open>The processing order\<close>

text \<open>
  With a comparator that tests a key, the insertion sort of the model is the library's
  stable \<open>sort_key\<close>.
\<close>

lemma insertBy_insort_key:
  assumes "\<And>a b. cmp a b \<le> 0 \<longleftrightarrow> f a \<le> f b"
  shows "insertBy cmp a xs = insort_key f a xs"
  by (induction xs) (simp_all add: assms)

lemma sortBy_sort_key:
  assumes "\<And>a b. cmp a b \<le> 0 \<longleftrightarrow> (f a :: rat) \<le> f b"
  shows "sortBy cmp xs = sort_key f xs"
proof -
  have "insertBy cmp = insort_key f"
    using insertBy_insort_key [of cmp f, OF assms] by (intro ext)
  then show ?thesis
    by (simp add: sortBy_def sort_key_def)
qed

lemma sortBy_const: "sortBy (\<lambda>a b. 0) xs = xs"
proof -
  have "insertBy (\<lambda>a b. 0 :: rat) a ys = a # ys" for a :: 'a and ys
    by (cases ys) simp_all
  then have "insertBy (\<lambda>a b :: 'a. 0 :: rat) = (#)"
    by (intro ext) simp
  moreover have "foldr (#) xs [] = xs"
    by (induction xs) simp_all
  ultimately show ?thesis
    by (simp add: sortBy_def)
qed

lemma sortedSelection_cases:
  "sortedSelection s d sel =
     (if includes_str d ''right'' then sort_key (\<lambda>a. - xpos (s a)) sel
      else if includes_str d ''left'' then sort_key (\<lambda>a. xpos (s a)) sel
      else if includes_str d ''bottom'' then sort_key (\<lambda>a. - ypos (s a)) sel
      else if includes_str d ''top'' then sort_key (\<lambda>a. ypos (s a)) sel
      else sel)"
proof -
  have r: "sortBy (\<lambda>a b. xpos (s b) - xpos (s a)) sel = sort_key (\<lambda>a. - xpos (s a)) sel"
    by (rule sortBy_sort_key) auto
  have l: "sortBy (\<lambda>a b. xpos (s a) - xpos (s b)) sel = sort_key (\<lambda>a. xpos (s a)) sel"
    by (rule sortBy_sort_key) auto
  have b: "sortBy (\<lambda>a b. ypos (s b) - ypos (s a)) sel = sort_key (\<lambda>a. - ypos (s a)) sel"
    by (rule sortBy_sort_key) auto
  have t: "sortBy (\<lambda>a b. ypos (s a) - ypos (s b)) sel = sort_key (\<lambda>a. ypos (s a)) sel"
    by (rule sortBy_sort_key) auto
  have "compareNodes s d =
     (if includes_str d ''right'' then (\<lambda>a b. xpos (s b) - xpos (s a))
      else if includes_str d ''left'' then (\<lambda>a b. xpos (s a) - xpos (s b))
      else if includes_str d ''bottom'' then (\<lambda>a b. ypos (s b) - ypos (s a))
      else if includes_str d ''top'' then (\<lambda>a b. ypos (s a) - ypos (s b))
      else (\<lambda>a b. 0))"
    by (intro ext) (simp add: compareNodes_def)
  then show ?thesis
    by (simp add: sortedSelection_def r l b t sortBy_const)
qed

lemma sorted_wrt_sort_key:
  "sorted_wrt (\<lambda>a b. f a \<le> f b) (sort_key f xs)"
  using sorted_sort_key [of f xs] by (simp add: sorted_wrt_map)

lemma sorted_wrt_sort_key_desc:
  "sorted_wrt (\<lambda>a b. (f b :: rat) \<le> f a) (sort_key (\<lambda>a. - f a) xs)"
  using sorted_wrt_sort_key [of "\<lambda>a. - f a" xs] by simp

lemma sort_key_stable_neg:
  "filter (\<lambda>a. (f a :: rat) = v) (sort_key (\<lambda>a. - f a) xs) = filter (\<lambda>a. f a = v) xs"
proof -
  have "(\<lambda>a. - f a = - v) = (\<lambda>a. f a = v)"
    by auto
  with sort_key_stable [of "\<lambda>a. - f a" "- v" xs] show ?thesis
    by simp
qed

text \<open>
  C4, as amended. The elements are processed in the order of \<open>sortedSelection\<close>, a
  rearrangement of the selection fixed by the first of these that applies: descending by
  x if the direction includes right; otherwise ascending by x if it includes left;
  otherwise descending by y if it includes bottom; otherwise ascending by y if it
  includes top; otherwise the selection order itself. Elements with equal keys keep
  their selection order, and y plays no part when the direction has a horizontal token.
\<close>

theorem processing_order:
  "(selection w \<noteq> [] \<longrightarrow>
      performDuplicate raises w d gap pushEnabled =
        finishBatch d (foldl (duplicateOne raises d gap pushEnabled) (startBatch w)
          (sortedSelection (nodes w) d (selection w))))
 \<and> mset (sortedSelection s d sel) = mset sel
 \<and> (includes_str d ''right'' \<longrightarrow>
      sorted_wrt (\<lambda>a b. xpos (s a) \<ge> xpos (s b)) (sortedSelection s d sel))
 \<and> (\<not> includes_str d ''right'' \<and> includes_str d ''left'' \<longrightarrow>
      sorted_wrt (\<lambda>a b. xpos (s a) \<le> xpos (s b)) (sortedSelection s d sel))
 \<and> (\<not> includes_str d ''right'' \<and> \<not> includes_str d ''left'' \<and> includes_str d ''bottom'' \<longrightarrow>
      sorted_wrt (\<lambda>a b. ypos (s a) \<ge> ypos (s b)) (sortedSelection s d sel))
 \<and> (\<not> includes_str d ''right'' \<and> \<not> includes_str d ''left'' \<and> \<not> includes_str d ''bottom''
      \<and> includes_str d ''top'' \<longrightarrow>
      sorted_wrt (\<lambda>a b. ypos (s a) \<le> ypos (s b)) (sortedSelection s d sel))
 \<and> (\<not> includes_str d ''right'' \<and> \<not> includes_str d ''left'' \<and> \<not> includes_str d ''bottom''
      \<and> \<not> includes_str d ''top'' \<longrightarrow> sortedSelection s d sel = sel)
 \<and> (includes_str d ''right'' \<or> includes_str d ''left'' \<longrightarrow>
      filter (\<lambda>a. xpos (s a) = v) (sortedSelection s d sel) = filter (\<lambda>a. xpos (s a) = v) sel)
 \<and> (\<not> includes_str d ''right'' \<and> \<not> includes_str d ''left'' \<longrightarrow>
      filter (\<lambda>a. ypos (s a) = v) (sortedSelection s d sel) = filter (\<lambda>a. ypos (s a) = v) sel)"
  by (simp add: performDuplicate_def sortedSelection_cases sorted_wrt_sort_key
      sorted_wrt_sort_key_desc sort_key_stable sort_key_stable_neg)

theorem processing_order_witness:
  "sortedSelection chainScene ''right'' [1, 3, 2] = [3, 2, 1]
 \<and> sortedSelection chainScene ''left'' [3, 1, 2] = [1, 2, 3]
 \<and> sortedSelection columnScene ''bottom'' [1, 2] = [2, 1]
 \<and> sortedSelection columnScene ''top'' [2, 1] = [1, 2]
 \<and> sortedSelection columnScene ''bottom-right'' [1, 2] = [1, 2]
 \<and> sortedSelection chainScene ''none'' [2, 3, 1] = [2, 3, 1]
 \<and> sorted_wrt (\<lambda>a b. xpos (chainScene a) \<ge> xpos (chainScene b))
      (sortedSelection chainScene ''right'' [1, 3, 2])"
  using processing_order [of "\<lparr>nodes = chainScene, nextId = 4, selection = [1, 3, 2], notices = []\<rparr>"
      "\<lambda>_. False" "''right''" None True chainScene "[1, 3, 2]" 0]
  by (simp add: sortedSelection_def sortBy_def compareNodes_def chainScene_def columnScene_def
      frame_def)

text \<open>
  C4 as stated asks for descending y whenever the direction includes bottom. For
  bottom-right the comparator returns at the x test: two frames at the same x keep their
  selection order, which here is ascending in y.
\<close>

theorem processing_order_counterexample:
  "includes_str ''bottom-right'' ''bottom''
 \<and> sortedSelection columnScene ''bottom-right'' [1, 2] = [1, 2]
 \<and> ypos (columnScene 1) = 0 \<and> ypos (columnScene 2) = 10
 \<and> \<not> sorted_wrt (\<lambda>a b. ypos (columnScene a) \<ge> ypos (columnScene b))
        (sortedSelection columnScene ''bottom-right'' [1, 2])"
  by (simp add: sortedSelection_def sortBy_def compareNodes_def columnScene_def frame_def)

section \<open>Coordinates the direction leaves alone\<close>



lemma shiftNode_fields [simp]:
  "ntype (shiftNode d sx sy n) = ntype n" "locked (shiftNode d sx sy n) = locked n"
  "parent (shiftNode d sx sy n) = parent n" "layoutMode (shiftNode d sx sy n) = layoutMode n"
  by (simp_all add: shiftNode_def)


































end
